theory Spec2Isabelle
  imports Main
begin

section \<open>JavaScript values\<close>

text \<open>
  The two modules pass dynamically typed values around: hashes and names are strings
  that may be missing, failures are arrays such as \<^verbatim>\<open>[400, 'ExpectedNetworkName']\<close>,
  blocks and notifications are object literals. Objects are kept as their list of
  fields, in the order the literal writes them. Numbers are the integers the code
  handles (status codes, indices, token counts).
\<close>

datatype jsval =
    JUndefined
  | JNull
  | JBool bool
  | JNum int
  | JStr string
  | JArr "jsval list"
  | JObj "(string \<times> jsval) list"

text \<open>What \<^verbatim>\<open>!!v\<close> evaluates to.\<close>

fun truthy :: "jsval \<Rightarrow> bool" where
  "truthy JUndefined = False"
| "truthy JNull = False"
| "truthy (JBool b) = b"
| "truthy (JNum n) = (n \<noteq> 0)"
| "truthy (JStr s) = (s \<noteq> [])"
| "truthy (JArr vs) = True"
| "truthy (JObj fs) = True"

text \<open>
  Property access \<^verbatim>\<open>v.name\<close> for the names the code reads. It is only applied to
  values that are neither \<^verbatim>\<open>undefined\<close> nor \<^verbatim>\<open>null\<close>; a missing property reads as
  \<^verbatim>\<open>undefined\<close>.
\<close>

fun js_prop :: "jsval \<Rightarrow> string \<Rightarrow> jsval" where
  "js_prop (JObj fs) name = (case map_of fs name of Some v \<Rightarrow> v | None \<Rightarrow> JUndefined)"
| "js_prop v name = JUndefined"

text \<open>The names of the fields an object carries; no fields for a value that is not an object.\<close>

fun field_names :: "jsval \<Rightarrow> string list" where
  "field_names (JObj fs) = map fst fs"
| "field_names v = []"

section \<open>Collaborators of the block walker\<close>

text \<open>
  Modelled from the spec: the Block Source (\<^verbatim>\<open>getBlock\<close> of \<^verbatim>\<open>./../chain\<close>) is not part of
  the sources at hand. Its interface is
  \<^verbatim>\<open>fetchBlock(network, blockId) -> {previous_block_hash, transaction_ids} | failure\<close>:
  a block is an object of these two fields.
\<close>

record block =
  previous_block_hash :: jsval
  transaction_ids :: jsval

definition block_object :: "block \<Rightarrow> jsval" where
  "block_object b =
     JObj [(''previous_block_hash'', previous_block_hash b),
           (''transaction_ids'', transaction_ids b)]"

text \<open>
  Every call of a collaborator is journalled with its arguments and its outcome:
  \<open>Inl err\<close> when the callback received a failure, \<open>Inr v\<close> when it received a value.
  The arguments are those of the source's calls:
  \<^verbatim>\<open>getJsonFromCache({cache, key, type})\<close>, \<^verbatim>\<open>getBlock({network, id})\<close> and
  \<^verbatim>\<open>setJsonInCache({cache, key, ms, type, value})\<close>.
\<close>

datatype event =
    CacheRead jsval jsval string "jsval + jsval"
  | BlockFetch jsval jsval "jsval + block"
  | CacheWrite jsval jsval nat string jsval "jsval + unit"

text \<open>
  The collaborators act on a world \<open>'w\<close> (the cache backend, the chain node) that the
  walker never sees; each call returns its outcome and the world after it.
\<close>

record 'w env =
  getJsonFromCache :: "jsval \<Rightarrow> jsval \<Rightarrow> string \<Rightarrow> 'w \<Rightarrow> (jsval + jsval) \<times> 'w"
  getBlock :: "jsval \<Rightarrow> jsval \<Rightarrow> 'w \<Rightarrow> (jsval + block) \<times> 'w"
  setJsonInCache :: "jsval \<Rightarrow> jsval \<Rightarrow> nat \<Rightarrow> string \<Rightarrow> jsval \<Rightarrow> 'w \<Rightarrow> (jsval + unit) \<times> 'w"

section \<open>Cached block walker\<close>

definition blockExpirationMs :: nat where
  "blockExpirationMs = 1000 * 60 * 60 * 3"

definition fetchBlocksCount :: nat where
  "fetchBlocksCount = 10"

text \<open>
  One pass of the loop body, the \<^verbatim>\<open>asyncAuto\<close> of four tasks. The dependency order
  runs \<^verbatim>\<open>getCachedBlock\<close>, then \<^verbatim>\<open>getBlock\<close>, then \<^verbatim>\<open>setCachedBlock\<close> (started with
  the cursor of this pass) and \<^verbatim>\<open>blocks\<close>. A failing task ends the pass with that
  failure. The pass yields the block of the \<^verbatim>\<open>getBlock\<close> task, which the \<^verbatim>\<open>blocks\<close>
  task pushes and takes the next cursor from.

  Modelled from the spec: \<^verbatim>\<open>returnResult\<close> of \<^verbatim>\<open>./../async-util\<close>, which ends the pass, is
  not part of the sources at hand. A failure is fatal for the whole call and reported as
  it is; otherwise the pass hands on the value of the task it names, \<^verbatim>\<open>blocks\<close>.
\<close>

definition getCachedBlock_task ::
  "'w env \<Rightarrow> jsval \<Rightarrow> jsval \<Rightarrow> 'w \<Rightarrow> (jsval + jsval) \<times> 'w \<times> event list" where
  "getCachedBlock_task E cache cursor w =
     (case getJsonFromCache E cache cursor ''block'' w of
        (r, w') \<Rightarrow> (r, w', [CacheRead cache cursor ''block'' r]))"

definition getBlock_task ::
  "'w env \<Rightarrow> jsval \<Rightarrow> jsval \<Rightarrow> jsval \<Rightarrow> 'w \<Rightarrow> (jsval + jsval) \<times> 'w \<times> event list" where
  "getBlock_task E network cursor getCachedBlock w =
     (if truthy getCachedBlock then
        (Inr (JObj [(''is_cached'', JBool True),
                    (''previous_block_hash'', js_prop getCachedBlock ''previous_block_hash''),
                    (''transaction_ids'', js_prop getCachedBlock ''transaction_ids'')]),
         w, [])
      else
        (case getBlock E network cursor w of
           (r, w') \<Rightarrow> (map_sum id block_object r, w', [BlockFetch network cursor r])))"

definition setCachedBlock_task ::
  "'w env \<Rightarrow> jsval \<Rightarrow> jsval \<Rightarrow> jsval \<Rightarrow> 'w \<Rightarrow> (jsval + unit) \<times> 'w \<times> event list" where
  "setCachedBlock_task E cache cursor blk w =
     (if truthy (js_prop blk ''is_cached'') then (Inr (), w, [])
      else
        (let val = JObj [(''previous_block_hash'', js_prop blk ''previous_block_hash''),
                         (''transaction_ids'', js_prop blk ''transaction_ids'')]
         in case setJsonInCache E cache cursor blockExpirationMs ''block'' val w of
              (r, w') \<Rightarrow> (r, w', [CacheWrite cache cursor blockExpirationMs ''block'' val r])))"

definition iteration ::
  "'w env \<Rightarrow> jsval \<Rightarrow> jsval \<Rightarrow> jsval \<Rightarrow> 'w \<Rightarrow> (jsval + jsval) \<times> 'w \<times> event list" where
  "iteration E cache network cursor w =
     (case getCachedBlock_task E cache cursor w of
        (Inl err, w1, es1) \<Rightarrow> (Inl err, w1, es1)
      | (Inr getCachedBlock, w1, es1) \<Rightarrow>
          (case getBlock_task E network cursor getCachedBlock w1 of
             (Inl err, w2, es2) \<Rightarrow> (Inl err, w2, es1 @ es2)
           | (Inr blk, w2, es2) \<Rightarrow>
               (case setCachedBlock_task E cache cursor blk w2 of
                  (Inl err, w3, es3) \<Rightarrow> (Inl err, w3, es1 @ es2 @ es3)
                | (Inr u, w3, es3) \<Rightarrow> (Inr blk, w3, es1 @ es2 @ es3))))"

text \<open>
  The \<^verbatim>\<open>asyncWhilst\<close> loop over the local variables \<^verbatim>\<open>cursor\<close> and \<^verbatim>\<open>blocks\<close>. The
  loop hands its final callback the failure of a pass, or the value of the last pass,
  which is \<^verbatim>\<open>{blocks}\<close> (\<open>res\<close> below; \<^verbatim>\<open>undefined\<close> if no pass ran). The journal
  keeps the passes apart: each pass is the cursor it ran with and the calls it made.
\<close>

type_synonym pass = "jsval \<times> event list"

function whilst ::
  "'w env \<Rightarrow> jsval \<Rightarrow> jsval \<Rightarrow> jsval \<Rightarrow> jsval list \<Rightarrow> jsval \<Rightarrow> 'w
     \<Rightarrow> (jsval + jsval) \<times> 'w \<times> pass list" where
  "whilst E cache network cursor blocks res w =
     (if length blocks < fetchBlocksCount \<and> truthy cursor then
        (case iteration E cache network cursor w of
           (Inl err, w', es) \<Rightarrow> (Inl err, w', [(cursor, es)])
         | (Inr blk, w', es) \<Rightarrow>
             (case whilst E cache network (js_prop blk ''previous_block_hash'') (blocks @ [blk])
                     (JObj [(''blocks'', JArr (blocks @ [blk]))]) w' of
                (r, w'', ps) \<Rightarrow> (r, w'', (cursor, es) # ps)))
      else (Inr res, w, []))"
  by pat_completeness auto
termination
  by (relation "measure (\<lambda>(E, cache, network, cursor, blocks, res, w). fetchBlocksCount - length blocks)")
     auto

definition get_past_blocks ::
  "'w env \<Rightarrow> jsval \<Rightarrow> jsval \<Rightarrow> jsval \<Rightarrow> 'w \<Rightarrow> (jsval + jsval) \<times> 'w \<times> pass list" where
  "get_past_blocks E cache current network w =
     (if \<not> truthy cache then
        (Inl (JArr [JNum 400, JStr ''ExpectedCacheToCheckAgainst'']), w, [])
      else if \<not> truthy current then
        (Inl (JArr [JNum 400, JStr ''ExpectedCurrentBlockHash'']), w, [])
      else if \<not> truthy network then
        (Inl (JArr [JNum 400, JStr ''ExpectedNetworkName'']), w, [])
      else whilst E cache network current [] JUndefined w)"

section \<open>Reading the journal\<close>

text \<open>All calls of a walk, in the order they were made.\<close>

definition journal :: "pass list \<Rightarrow> event list" where
  "journal ps = concat (map snd ps)"

text \<open>The failure an event ended with, if it did.\<close>

fun failure_of :: "event \<Rightarrow> jsval option" where
  "failure_of (CacheRead c k t (Inl e)) = Some e"
| "failure_of (BlockFetch n i (Inl e)) = Some e"
| "failure_of (CacheWrite c k ms t v (Inl e)) = Some e"
| "failure_of ev = None"

text \<open>The cache lookups and the Block Source fetches among some events.\<close>

fun is_lookup :: "event \<Rightarrow> bool" where
  "is_lookup (CacheRead c k t r) = True"
| "is_lookup ev = False"

fun is_fetch :: "event \<Rightarrow> bool" where
  "is_fetch (BlockFetch n i r) = True"
| "is_fetch ev = False"

text \<open>
  The block a pass resolved, read off its calls: a cache lookup that found a value
  gives the block rebuilt from it, a fetch that succeeded gives the fetched block.
\<close>

fun resolved :: "event list \<Rightarrow> jsval option" where
  "resolved [] = None"
| "resolved (CacheRead c k t (Inr v) # es) =
     (if truthy v then
        Some (JObj [(''is_cached'', JBool True),
                    (''previous_block_hash'', js_prop v ''previous_block_hash''),
                    (''transaction_ids'', js_prop v ''transaction_ids'')])
      else resolved es)"
| "resolved (BlockFetch n i (Inr b) # es) = Some (block_object b)"
| "resolved (ev # es) = resolved es"

text \<open>The block hash a call was made for.\<close>

fun hash_of :: "event \<Rightarrow> jsval" where
  "hash_of (CacheRead c k t r) = k"
| "hash_of (BlockFetch n i r) = i"
| "hash_of (CacheWrite c k ms t v r) = k"

text \<open>The blocks the passes of a walk resolved, in order.\<close>

definition delivered :: "pass list \<Rightarrow> jsval list" where
  "delivered ps = List.map_filter (\<lambda>p. resolved (snd p)) ps"

text \<open>
  Cursors and blocks that follow the chain from \<open>c\<close>: the first cursor is \<open>c\<close>, each
  cursor is there, and the next one is the previous hash of the block before it.
\<close>

fun linked :: "jsval \<Rightarrow> jsval list \<Rightarrow> jsval list \<Rightarrow> bool" where
  "linked c [] [] = True"
| "linked c (k # ks) (b # bs) =
     (k = c \<and> truthy k \<and> linked (js_prop b ''previous_block_hash'') ks bs)"
| "linked c ks bs = False"

text \<open>
  What holds of a loop that ended well, started at \<open>cursor\<close> with \<open>blocks\<close> collected
  and \<open>res\<close> as the value so far, and ran the passes \<open>ps\<close> to hand over \<open>v\<close>.
\<close>

definition walked :: "jsval \<Rightarrow> jsval list \<Rightarrow> jsval \<Rightarrow> jsval \<Rightarrow> pass list \<Rightarrow> bool" where
  "walked cursor blocks res v ps \<longleftrightarrow>
     v = (if ps = [] then res else JObj [(''blocks'', JArr (blocks @ delivered ps))])
     \<and> length (delivered ps) = length ps
     \<and> linked cursor (map fst ps) (delivered ps)
     \<and> (length blocks \<le> fetchBlocksCount \<longrightarrow> length blocks + length ps \<le> fetchBlocksCount)
     \<and> (length blocks + length ps < fetchBlocksCount \<longrightarrow>
           \<not> truthy (if ps = [] then cursor
                      else js_prop (last (delivered ps)) ''previous_block_hash''))"

section \<open>A cache with expiry\<close>

text \<open>
  Modelled from the spec: the TTL cache (\<^verbatim>\<open>getJsonFromCache\<close> and \<^verbatim>\<open>setJsonInCache\<close> of
  \<^verbatim>\<open>./../cache\<close>) is not part of the sources at hand. Its interface is
  \<^verbatim>\<open>get(type, key) -> value | absent\<close> and
  \<^verbatim>\<open>set(type, key, value, ttl_ms) -> success | failure\<close>, per backend selector; an entry
  carries a time-to-live set at write time and the backend owns expiry. The world
  holds the entries with the time they expire at, a clock in milliseconds, the chain
  the Block Source answers from, and the failures the backend is to answer with
  instead. A walk is taken to be short against the clock: the clock only moves
  between walks.
\<close>

record ttl_world =
  entries :: "jsval \<times> string \<times> jsval \<Rightarrow> (jsval \<times> nat) option"
  clock :: nat
  chain :: "jsval \<times> jsval \<Rightarrow> jsval + block"
  read_fault :: "jsval \<times> string \<times> jsval \<Rightarrow> jsval option"
  write_fault :: "jsval \<times> string \<times> jsval \<Rightarrow> jsval option"

definition live :: "ttl_world \<Rightarrow> jsval \<times> string \<times> jsval \<Rightarrow> jsval option" where
  "live w a =
     (case entries w a of
        None \<Rightarrow> None
      | Some (v, expires) \<Rightarrow> if clock w < expires then Some v else None)"

definition ttl_get :: "jsval \<Rightarrow> jsval \<Rightarrow> string \<Rightarrow> ttl_world \<Rightarrow> (jsval + jsval) \<times> ttl_world" where
  "ttl_get cache key type w =
     (case read_fault w (cache, type, key) of
        Some e \<Rightarrow> (Inl e, w)
      | None \<Rightarrow> (case live w (cache, type, key) of
                  Some v \<Rightarrow> (Inr v, w)
                | None \<Rightarrow> (Inr JUndefined, w)))"

definition ttl_set ::
  "jsval \<Rightarrow> jsval \<Rightarrow> nat \<Rightarrow> string \<Rightarrow> jsval \<Rightarrow> ttl_world \<Rightarrow> (jsval + unit) \<times> ttl_world" where
  "ttl_set cache key ms type val w =
     (case write_fault w (cache, type, key) of
        Some e \<Rightarrow> (Inl e, w)
      | None \<Rightarrow> (Inr (), w\<lparr>entries := (entries w)((cache, type, key) \<mapsto> (val, clock w + ms))\<rparr>))"

definition chain_get :: "jsval \<Rightarrow> jsval \<Rightarrow> ttl_world \<Rightarrow> (jsval + block) \<times> ttl_world" where
  "chain_get network ident w = (chain w (network, ident), w)"

definition ttl_env :: "ttl_world env" where
  "ttl_env = \<lparr>getJsonFromCache = ttl_get, getBlock = chain_get, setJsonInCache = ttl_set\<rparr>"

section \<open>Swap output scanner\<close>

text \<open>
  A notification is what \<^verbatim>\<open>scanner.emit(name, payload)\<close> hands to the subscribers of
  \<open>name\<close>. The scanner is taken to have a subscriber for \<^verbatim>\<open>'error'\<close>, as an emitter
  without one throws on that event.
\<close>

type_synonym notification = "jsval \<times> jsval"

text \<open>
  A record of the detector's result is an object, kept as its fields; \<open>field\<close> reads
  \<^verbatim>\<open>swap.name\<close>.
\<close>

type_synonym swap_record = "(string \<times> jsval) list"

definition field :: "swap_record \<Rightarrow> string \<Rightarrow> jsval" where
  "field swap name = js_prop (JObj swap) name"

text \<open>
  The \<^verbatim>\<open>switch (swap.type)\<close> of the scanner, for one record of the transaction \<open>txid\<close>
  (the source's \<^verbatim>\<open>id\<close>). The cases compare with \<^verbatim>\<open>===\<close>, so only the very strings match.
\<close>

definition notify_swap :: "jsval \<Rightarrow> jsval \<Rightarrow> swap_record \<Rightarrow> notification" where
  "notify_swap txid network swap =
     (if field swap ''type'' = JStr ''claim'' then
        (field swap ''type'',
         JObj [(''id'', txid),
               (''network'', network),
               (''index'', field swap ''index''),
               (''outpoint'', field swap ''outpoint''),
               (''preimage'', field swap ''preimage''),
               (''script'', field swap ''script''),
               (''type'', field swap ''type'')])
      else if field swap ''type'' = JStr ''funding'' then
        (field swap ''type'',
         JObj [(''id'', txid),
               (''network'', network),
               (''index'', field swap ''index''),
               (''invoice'', field swap ''invoice''),
               (''output'', field swap ''output''),
               (''script'', field swap ''script''),
               (''tokens'', field swap ''tokens''),
               (''type'', field swap ''type''),
               (''vout'', field swap ''vout'')])
      else if field swap ''type'' = JStr ''refund'' then
        (field swap ''type'',
         JObj [(''id'', txid),
               (''network'', network),
               (''index'', field swap ''index''),
               (''outpoint'', field swap ''outpoint''),
               (''script'', field swap ''script''),
               (''type'', field swap ''type'')])
      else
        (JStr ''error'', JArr [JNum 500, JStr ''UnknownSwapType'']))"

text \<open>
  The Swap Detector (\<^verbatim>\<open>detectSwaps({cache, id, network}, cbk)\<close>) is a parameter: it
  answers with a failure or with the records of \<^verbatim>\<open>detected.swaps\<close>.
\<close>

type_synonym detector = "jsval \<Rightarrow> jsval \<Rightarrow> jsval \<Rightarrow> jsval + swap_record list"

text \<open>The subscriber for \<^verbatim>\<open>'transaction'\<close>: what the scanner emits for one transaction id.\<close>

definition on_transaction :: "detector \<Rightarrow> jsval \<Rightarrow> jsval \<Rightarrow> jsval \<Rightarrow> notification list" where
  "on_transaction detectSwaps cache network txid =
     (case detectSwaps cache txid network of
        Inl err \<Rightarrow> [(JStr ''error'', err)]
      | Inr swaps \<Rightarrow> map (notify_swap txid network) swaps)"

text \<open>What a listener hands to the scanner.\<close>

datatype listener_event = ListenerError jsval | ListenerTransaction jsval

definition on_listener_event ::
  "detector \<Rightarrow> jsval \<Rightarrow> jsval \<Rightarrow> listener_event \<Rightarrow> notification list" where
  "on_listener_event detectSwaps cache network ev =
     (case ev of
        ListenerError err \<Rightarrow> [(JStr ''error'', err)]
      | ListenerTransaction txid \<Rightarrow> on_transaction detectSwaps cache network txid)"

text \<open>
  Construction throws on a missing cache type or network name, and otherwise gives the
  scanner, here its reaction to the events of its two listeners.
\<close>

definition swap_scanner ::
  "detector \<Rightarrow> jsval \<Rightarrow> jsval \<Rightarrow> string + (listener_event \<Rightarrow> notification list)" where
  "swap_scanner detectSwaps cache network =
     (if \<not> truthy cache then Inl ''ExpectedCacheTypeForScanCaching''
      else if \<not> truthy network then Inl ''ExpectedNetworkName''
      else Inr (on_listener_event detectSwaps cache network))"

text \<open>The notifications of one kind among those emitted.\<close>

definition named :: "string \<Rightarrow> notification list \<Rightarrow> notification list" where
  "named name ns = filter (\<lambda>n. fst n = JStr name) ns"

section \<open>Examples\<close>

text \<open>A chain of three blocks, the oldest without a previous hash, and a world with an
  empty cache in front of it; three records of the detector.\<close>

definition example_chain :: "jsval \<times> jsval \<Rightarrow> jsval + block" where
  "example_chain a =
     (if snd a = JStr ''b3'' then
        Inr \<lparr>previous_block_hash = JStr ''b2'', transaction_ids = JArr [JStr ''t3'']\<rparr>
      else if snd a = JStr ''b2'' then
        Inr \<lparr>previous_block_hash = JStr ''b1'', transaction_ids = JArr [JStr ''t2'']\<rparr>
      else if snd a = JStr ''b1'' then
        Inr \<lparr>previous_block_hash = JUndefined, transaction_ids = JArr [JStr ''t1'']\<rparr>
      else Inl (JArr [JNum 503, JStr ''GetBlockFailure'']))"

definition example_world :: ttl_world where
  "example_world =
     \<lparr>entries = (\<lambda>a. None), clock = 0, chain = example_chain,
      read_fault = (\<lambda>a. None), write_fault = (\<lambda>a. None)\<rparr>"

definition example_funding :: swap_record where
  "example_funding =
     [(''type'', JStr ''funding''), (''index'', JNum 2), (''invoice'', JStr ''lnbc1''),
      (''output'', JStr ''0014''), (''script'', JStr ''76a9''), (''tokens'', JNum 5000),
      (''vout'', JNum 0)]"

definition example_claim :: swap_record where
  "example_claim =
     [(''type'', JStr ''claim''), (''index'', JNum 7), (''outpoint'', JStr ''aa:0''),
      (''preimage'', JStr ''beef''), (''script'', JStr ''76a9'')]"

definition example_unknown :: swap_record where
  "example_unknown = [(''type'', JStr ''mystery''), (''script'', JStr ''76a9'')]"

text \<open>A chain as long as its starting hash, each hash the tail of the one before; a
  cache that holds the block \<^verbatim>\<open>b2\<close>; a cache that refuses the write for \<^verbatim>\<open>b2\<close>.\<close>

definition unary_chain :: "jsval \<times> jsval \<Rightarrow> jsval + block" where
  "unary_chain a =
     (case snd a of
        JStr s \<Rightarrow> Inr \<lparr>previous_block_hash = JStr (tl s), transaction_ids = JArr [JStr s]\<rparr>
      | _ \<Rightarrow> Inl (JArr [JNum 503, JStr ''GetBlockFailure'']))"

definition unary_world :: ttl_world where
  "unary_world = example_world\<lparr>chain := unary_chain\<rparr>"

definition cached_world :: ttl_world where
  "cached_world =
     example_world\<lparr>entries :=
       [(JStr ''memory'', ''block'', JStr ''b2'') \<mapsto>
          (JObj [(''previous_block_hash'', JStr ''b1''),
                 (''transaction_ids'', JArr [JStr ''t2''])], 10800000)]\<rparr>"

definition faulty_world :: ttl_world where
  "faulty_world =
     example_world\<lparr>write_fault :=
       [(JStr ''memory'', ''block'', JStr ''b2'') \<mapsto>
          JArr [JNum 500, JStr ''CacheWriteFailure'']]\<rparr>"

section \<open>The passes of the walker\<close>

declare whilst.simps [simp del]

lemma is_cached_block_object [simp]: "js_prop (block_object b) ''is_cached'' = JUndefined"
  by (simp add: block_object_def)

lemma rewrite_block_object [simp]:
  "JObj [(''previous_block_hash'', js_prop (block_object b) ''previous_block_hash''),
         (''transaction_ids'', js_prop (block_object b) ''transaction_ids'')] = block_object b"
  by (simp add: block_object_def)

lemma setCachedBlock_task_cached:
  "setCachedBlock_task E cache cursor
      (JObj [(''is_cached'', JBool True), (''previous_block_hash'', p), (''transaction_ids'', t)]) w
   = (Inr (), w, [])"
  by (simp add: setCachedBlock_task_def)

lemma setCachedBlock_task_fetched:
  "setCachedBlock_task E cache cursor (block_object b) w =
     (case setJsonInCache E cache cursor blockExpirationMs ''block'' (block_object b) w of
        (r, w') \<Rightarrow> (r, w', [CacheWrite cache cursor blockExpirationMs ''block'' (block_object b) r]))"
  by (simp add: setCachedBlock_task_def Let_def)

lemma iteration_cases [consumes 1, case_names read_failed hit fetch_failed write_failed miss]:
  assumes it: "iteration E cache network cursor w = (r, w', es)"
  obtains
    (read_failed) e where
      "getJsonFromCache E cache cursor ''block'' w = (Inl e, w')"
      "r = Inl e" "es = [CacheRead cache cursor ''block'' (Inl e)]"
  | (hit) v where
      "getJsonFromCache E cache cursor ''block'' w = (Inr v, w')" "truthy v"
      "r = Inr (JObj [(''is_cached'', JBool True),
                      (''previous_block_hash'', js_prop v ''previous_block_hash''),
                      (''transaction_ids'', js_prop v ''transaction_ids'')])"
      "es = [CacheRead cache cursor ''block'' (Inr v)]"
  | (fetch_failed) v w1 e where
      "getJsonFromCache E cache cursor ''block'' w = (Inr v, w1)" "\<not> truthy v"
      "getBlock E network cursor w1 = (Inl e, w')"
      "r = Inl e"
      "es = [CacheRead cache cursor ''block'' (Inr v), BlockFetch network cursor (Inl e)]"
  | (write_failed) v w1 b w2 e where
      "getJsonFromCache E cache cursor ''block'' w = (Inr v, w1)" "\<not> truthy v"
      "getBlock E network cursor w1 = (Inr b, w2)"
      "setJsonInCache E cache cursor blockExpirationMs ''block'' (block_object b) w2 = (Inl e, w')"
      "r = Inl e"
      "es = [CacheRead cache cursor ''block'' (Inr v), BlockFetch network cursor (Inr b),
             CacheWrite cache cursor blockExpirationMs ''block'' (block_object b) (Inl e)]"
  | (miss) v w1 b w2 where
      "getJsonFromCache E cache cursor ''block'' w = (Inr v, w1)" "\<not> truthy v"
      "getBlock E network cursor w1 = (Inr b, w2)"
      "setJsonInCache E cache cursor blockExpirationMs ''block'' (block_object b) w2 = (Inr (), w')"
      "r = Inr (block_object b)"
      "es = [CacheRead cache cursor ''block'' (Inr v), BlockFetch network cursor (Inr b),
             CacheWrite cache cursor blockExpirationMs ''block'' (block_object b) (Inr ())]"
proof -
  obtain r1 w1 where g: "getJsonFromCache E cache cursor ''block'' w = (r1, w1)"
    by (cases "getJsonFromCache E cache cursor ''block'' w")
  show thesis
  proof (cases r1)
    case (Inl e)
    with it g show thesis
      by (intro read_failed [of e]) (auto simp: iteration_def getCachedBlock_task_def)
  next
    case v: (Inr v)
    show thesis
    proof (cases "truthy v")
      case True
      with it g v show thesis
        by (intro hit [of v])
           (auto simp: iteration_def getCachedBlock_task_def getBlock_task_def
                       setCachedBlock_task_cached)
    next
      case False
      obtain r2 w2 where f: "getBlock E network cursor w1 = (r2, w2)"
        by (cases "getBlock E network cursor w1")
      show thesis
      proof (cases r2)
        case (Inl e)
        with it g v False f show thesis
          by (intro fetch_failed [of v w1 e])
             (auto simp: iteration_def getCachedBlock_task_def getBlock_task_def)
      next
        case b: (Inr b)
        obtain r3 w3 where s:
          "setJsonInCache E cache cursor blockExpirationMs ''block'' (block_object b) w2 = (r3, w3)"
          by (cases "setJsonInCache E cache cursor blockExpirationMs ''block'' (block_object b) w2")
        show thesis
        proof (cases r3)
          case (Inl e)
          with it g v False f b s show thesis
            by (intro write_failed [of v w1 b w2 e])
               (auto simp: iteration_def getCachedBlock_task_def getBlock_task_def
                           setCachedBlock_task_fetched)
        next
          case (Inr u)
          with it g v False f b s show thesis
            by (intro miss [of v w1 b w2])
               (auto simp: iteration_def getCachedBlock_task_def getBlock_task_def
                           setCachedBlock_task_fetched)
        qed
      qed
    qed
  qed
qed



lemma whilst_stop:
  "\<not> (length blocks < fetchBlocksCount \<and> truthy cursor) \<Longrightarrow>
   whilst E cache network cursor blocks res w = (Inr res, w, [])"
  by (subst whilst.simps) auto

lemma whilst_fail:
  "length blocks < fetchBlocksCount \<Longrightarrow> truthy cursor \<Longrightarrow>
   iteration E cache network cursor w = (Inl err, w', es) \<Longrightarrow>
   whilst E cache network cursor blocks res w = (Inl err, w', [(cursor, es)])"
  by (subst whilst.simps) simp

lemma whilst_step:
  "length blocks < fetchBlocksCount \<Longrightarrow> truthy cursor \<Longrightarrow>
   iteration E cache network cursor w = (Inr blk, w', es) \<Longrightarrow>
   whilst E cache network (js_prop blk ''previous_block_hash'') (blocks @ [blk])
      (JObj [(''blocks'', JArr (blocks @ [blk]))]) w' = (r, w'', ps) \<Longrightarrow>
   whilst E cache network cursor blocks res w = (r, w'', (cursor, es) # ps)"
  by (subst whilst.simps) simp

lemma whilst_runs [consumes 1, case_names stop fail step]:
  assumes run: "whilst E cache network cursor blocks res w = out"
    and stop: "\<And>cursor blocks res w.
      \<not> (length blocks < fetchBlocksCount \<and> truthy cursor) \<Longrightarrow>
      P cursor blocks res w (Inr res, w, [])"
    and fail: "\<And>cursor blocks res w err w' es.
      length blocks < fetchBlocksCount \<Longrightarrow> truthy cursor \<Longrightarrow>
      iteration E cache network cursor w = (Inl err, w', es) \<Longrightarrow>
      P cursor blocks res w (Inl err, w', [(cursor, es)])"
    and step: "\<And>cursor blocks res w blk w' es r w'' ps.
      length blocks < fetchBlocksCount \<Longrightarrow> truthy cursor \<Longrightarrow>
      iteration E cache network cursor w = (Inr blk, w', es) \<Longrightarrow>
      whilst E cache network (js_prop blk ''previous_block_hash'') (blocks @ [blk])
        (JObj [(''blocks'', JArr (blocks @ [blk]))]) w' = (r, w'', ps) \<Longrightarrow>
      P (js_prop blk ''previous_block_hash'') (blocks @ [blk])
        (JObj [(''blocks'', JArr (blocks @ [blk]))]) w' (r, w'', ps) \<Longrightarrow>
      P cursor blocks res w (r, w'', (cursor, es) # ps)"
  shows "P cursor blocks res w out"
  using run
proof (induction "fetchBlocksCount - length blocks" arbitrary: cursor blocks res w out
         rule: less_induct)
  case less
  show ?case
  proof (cases "length blocks < fetchBlocksCount \<and> truthy cursor")
    case False
    then have "out = (Inr res, w, [])"
      using less.prems by (simp add: whilst_stop)
    then show ?thesis
      using stop [OF False] by simp
  next
    case True
    then have c: "length blocks < fetchBlocksCount" "truthy cursor" by simp_all
    obtain r1 w1 es1 where it: "iteration E cache network cursor w = (r1, w1, es1)"
      by (metis prod_cases3)
    show ?thesis
    proof (cases r1)
      case (Inl err)
      with it have it': "iteration E cache network cursor w = (Inl err, w1, es1)" by simp
      have "out = (Inl err, w1, [(cursor, es1)])"
        using less.prems whilst_fail [OF c it'] by simp
      then show ?thesis
        using fail [OF c it'] by simp
    next
      case (Inr blk)
      with it have it': "iteration E cache network cursor w = (Inr blk, w1, es1)" by simp
      obtain r w'' es' where rest:
        "whilst E cache network (js_prop blk ''previous_block_hash'') (blocks @ [blk])
           (JObj [(''blocks'', JArr (blocks @ [blk]))]) w1 = (r, w'', es')"
        by (metis prod_cases3)
      have "fetchBlocksCount - length (blocks @ [blk]) < fetchBlocksCount - length blocks"
        using c by simp
      then have ih: "P (js_prop blk ''previous_block_hash'') (blocks @ [blk])
              (JObj [(''blocks'', JArr (blocks @ [blk]))]) w1 (r, w'', es')"
        using less.hyps rest by blast
      have "out = (r, w'', (cursor, es1) # es')"
        using less.prems whilst_step [OF c it' rest] by simp
      then show ?thesis
        using step [OF c it' rest ih] by simp
    qed
  qed
qed


lemma iteration_resolved:
  assumes "iteration E cache network cursor w = (Inr blk, w', es)"
  shows "resolved es = Some blk" and "\<forall>e\<in>set es. failure_of e = None"
    and "length (filter is_lookup es) = 1" and "length (filter is_fetch es) \<le> 1"
  using assms by (cases rule: iteration_cases; simp)+

lemma iteration_failed:
  assumes "iteration E cache network cursor w = (Inl err, w', es)"
  shows "\<exists>es' ev. es = es' @ [ev] \<and> failure_of ev = Some err \<and> (\<forall>e\<in>set es'. failure_of e = None)"
  using assms
proof (cases rule: iteration_cases)
  case (read_failed e)
  then show ?thesis by simp
next
  case (fetch_failed v w1 e)
  then have "es = [CacheRead cache cursor ''block'' (Inr v)] @ [BlockFetch network cursor (Inl e)]"
    by simp
  with fetch_failed show ?thesis by (metis failure_of.simps(2,4) empty_iff empty_set set_ConsD sum.inject(1))
next
  case (write_failed v w1 b w2 e)
  then have "es = [CacheRead cache cursor ''block'' (Inr v), BlockFetch network cursor (Inr b)]
      @ [CacheWrite cache cursor blockExpirationMs ''block'' (block_object b) (Inl e)]"
    by simp
  moreover have "\<forall>x\<in>set [CacheRead cache cursor ''block'' (Inr v), BlockFetch network cursor (Inr b)].
      failure_of x = None" by simp
  ultimately show ?thesis using write_failed(5) by (metis failure_of.simps(3) sum.inject(1))
qed simp_all

lemma whilst_passes:
  assumes "whilst E cache network cursor blocks res w = out"
  shows "\<forall>p\<in>set (snd (snd out)).
           truthy (fst p) \<and> (\<exists>w0 r0 w1. iteration E cache network (fst p) w0 = (r0, w1, snd p))"
  using assms
proof (induction rule: whilst_runs)
  case (stop cursor blocks res w)
  then show ?case by simp
next
  case (fail cursor blocks res w err w' es)
  then show ?case by auto
next
  case (step cursor blocks res w blk w' es r w'' ps)
  then show ?case by auto
qed

lemma whilst_success_passes:
  assumes "whilst E cache network cursor blocks res w = out" and "fst out = Inr v"
  shows "\<forall>p\<in>set (snd (snd out)).
           \<exists>w0 blk w1. iteration E cache network (fst p) w0 = (Inr blk, w1, snd p)"
  using assms
proof (induction rule: whilst_runs)
  case (stop cursor blocks res w)
  then show ?case by simp
next
  case (fail cursor blocks res w err w' es)
  then show ?case by simp
next
  case (step cursor blocks res w blk w' es r w'' ps)
  then show ?case by auto
qed

lemma delivered_Cons:
  "resolved es = Some blk \<Longrightarrow> delivered ((k, es) # ps) = blk # delivered ps"
  by (simp add: delivered_def map_filter_simps)

lemma delivered_Nil [simp]: "delivered [] = []"
  by (simp add: delivered_def map_filter_simps)

lemma whilst_success:
  assumes "whilst E cache network cursor blocks res w = out" and "fst out = Inr v"
  shows "walked cursor blocks res v (snd (snd out))"
  using assms
proof (induction rule: whilst_runs)
  case (stop cursor blocks res w)
  then show ?case by (auto simp: walked_def)
next
  case (fail cursor blocks res w err w' es)
  then show ?case by simp
next
  case (step cursor blocks res w blk w' es r w'' ps)
  from step.prems have "fst (r, w'', ps) = Inr v" by simp
  from step.IH [OF this]
  have ih: "walked (js_prop blk ''previous_block_hash'') (blocks @ [blk])
              (JObj [(''blocks'', JArr (blocks @ [blk]))]) v ps"
    by simp
  have d: "delivered ((cursor, es) # ps) = blk # delivered ps"
    using iteration_resolved(1) [OF step.hyps(3)] by (rule delivered_Cons)
  have l: "(delivered ps = []) = (ps = [])"
    using ih by (auto simp: walked_def)
  show ?case
    using ih step.hyps(1,2) l by (auto simp: walked_def d)
qed

lemma whilst_failure:
  assumes "whilst E cache network cursor blocks res w = out" and "fst out = Inl err"
  shows "\<exists>ps k es ev. snd (snd out) = ps @ [(k, es @ [ev])] \<and> failure_of ev = Some err
      \<and> (\<forall>e\<in>set es. failure_of e = None)
      \<and> (\<forall>p\<in>set ps. \<forall>e\<in>set (snd p). failure_of e = None)"
  using assms
proof (induction rule: whilst_runs)
  case (stop cursor blocks res w)
  then show ?case by simp
next
  case (fail cursor blocks res w e w' es)
  then have "iteration E cache network cursor w = (Inl err, w', es)" by simp
  from iteration_failed [OF this] obtain es' ev where
    "es = es' @ [ev]" "failure_of ev = Some err" "\<forall>e\<in>set es'. failure_of e = None"
    by blast
  then show ?case
    by (intro exI [of _ "[]"] exI [of _ cursor] exI [of _ es'] exI [of _ ev]) simp
next
  case (step cursor blocks res w blk w' es r w'' ps)
  from step.prems have "fst (r, w'', ps) = Inl err" by simp
  from step.IH [OF this] obtain ps' k es' ev where rest:
    "ps = ps' @ [(k, es' @ [ev])]" "failure_of ev = Some err"
    "\<forall>e\<in>set es'. failure_of e = None" "\<forall>p\<in>set ps'. \<forall>e\<in>set (snd p). failure_of e = None"
    by auto
  note it = iteration_resolved [OF step.hyps(3)]
  show ?case
    using rest it(2)
    by (intro exI [of _ "(cursor, es) # ps'"] exI [of _ k] exI [of _ es'] exI [of _ ev]) simp
qed


lemma ttl_env_simps [simp]:
  "getJsonFromCache ttl_env = ttl_get" "getBlock ttl_env = chain_get"
  "setJsonInCache ttl_env = ttl_set"
  by (simp_all add: ttl_env_def)

lemma ttl_get_world: "ttl_get cache key type w = (r, w') \<Longrightarrow> w' = w"
  by (auto simp: ttl_get_def split: option.splits)

lemma chain_get_world: "chain_get network i w = (r, w') \<Longrightarrow> w' = w"
  by (simp add: chain_get_def)

lemma ttl_get_live:
  "live w (cache, type, key) = Some v \<Longrightarrow> ttl_get cache key type w = (Inr x, w') \<Longrightarrow> x = v"
  by (auto simp: ttl_get_def split: option.splits)

lemma ttl_set_ok:
  "ttl_set cache key ms type val w = (Inr u, w') \<Longrightarrow>
   w' = w\<lparr>entries := (entries w)((cache, type, key) \<mapsto> (val, clock w + ms))\<rparr>"
  by (auto simp: ttl_set_def split: option.splits)

lemma ttl_set_failed: "ttl_set cache key ms type val w = (Inl e, w') \<Longrightarrow> w' = w"
  by (auto simp: ttl_set_def split: option.splits)

text \<open>What one pass does to the world of the TTL cache.\<close>

lemma ttl_iteration_clock:
  assumes "iteration ttl_env cache network k w = (r, w', es)"
  shows "clock w' = clock w"
  using assms
  by (cases rule: iteration_cases)
     (auto dest!: ttl_get_world chain_get_world ttl_set_failed ttl_set_ok)

lemma iteration_hash:
  assumes "iteration E cache network k w = (r, w', es)"
  shows "\<forall>e\<in>set es. hash_of e = k"
  using assms by (cases rule: iteration_cases) auto

lemma ttl_iteration_others:
  assumes "iteration ttl_env cache network k w = (r, w', es)" and "a \<noteq> (cache, ''block'', k)"
  shows "entries w' a = entries w a"
  using assms
  by (cases rule: iteration_cases)
     (auto dest!: ttl_get_world chain_get_world ttl_set_failed ttl_set_ok)

lemma ttl_iteration_live:
  assumes "iteration ttl_env cache network k w = (r, w', es)"
    and "live w (cache, ''block'', k) = Some (JObj fs)"
  shows "w' = w \<and> (\<forall>e\<in>set es. \<not> is_fetch e)"
  using assms
  by (cases rule: iteration_cases) (auto dest: ttl_get_live ttl_get_world)

lemma ttl_iteration_fetched:
  assumes "iteration ttl_env cache network k w = (Inr blk, w', es)"
    and "BlockFetch n i (Inr b) \<in> set es"
  shows "entries w' (cache, ''block'', k) = Some (block_object b, clock w + blockExpirationMs)"
  using assms
  by (cases rule: iteration_cases)
     (auto dest!: ttl_get_world chain_get_world ttl_set_failed ttl_set_ok)


lemma live_entry:
  "entries w a = Some (v, t) \<Longrightarrow> clock w < t \<Longrightarrow> live w a = Some v"
  by (simp add: live_def)

lemma ttl_whilst_keeps:
  assumes "whilst ttl_env cache network cursor blocks res w = out"
    and "entries w (cache, ''block'', h) = Some (JObj fs, t)" and "clock w < t"
  shows "(\<forall>p\<in>set (snd (snd out)). \<forall>e\<in>set (snd p). \<not> (is_fetch e \<and> hash_of e = h))
       \<and> entries (fst (snd out)) (cache, ''block'', h) = Some (JObj fs, t)
       \<and> clock (fst (snd out)) = clock w"
  using assms
proof (induction rule: whilst_runs)
  case (stop cursor blocks res w)
  then show ?case by simp
next
  case (fail cursor blocks res w err w' es)
  note it = fail.hyps(3)
  have c: "clock w' = clock w" using it by (rule ttl_iteration_clock)
  show ?case
  proof (cases "cursor = h")
    case True
    with fail.prems have "live w (cache, ''block'', cursor) = Some (JObj fs)"
      by (simp add: live_entry)
    from ttl_iteration_live [OF it this] fail.prems True show ?thesis by auto
  next
    case False
    then have "(cache, ''block'', h) \<noteq> (cache, ''block'', cursor)" by simp
    from ttl_iteration_others [OF it this] iteration_hash [OF it] fail.prems c False
    show ?thesis by auto
  qed
next
  case (step cursor blocks res w blk w' es r w'' ps)
  note it = step.hyps(3)
  have c: "clock w' = clock w" using it by (rule ttl_iteration_clock)
  have here: "(\<forall>e\<in>set es. \<not> (is_fetch e \<and> hash_of e = h))
      \<and> entries w' (cache, ''block'', h) = Some (JObj fs, t)"
  proof (cases "cursor = h")
    case True
    with step.prems have "live w (cache, ''block'', cursor) = Some (JObj fs)"
      by (simp add: live_entry)
    from ttl_iteration_live [OF it this] step.prems True show ?thesis by auto
  next
    case False
    then have "(cache, ''block'', h) \<noteq> (cache, ''block'', cursor)" by simp
    from ttl_iteration_others [OF it this] iteration_hash [OF it] step.prems False
    show ?thesis by auto
  qed
  with step.IH c step.prems show ?case by simp
qed

lemma blockExpirationMs_pos: "0 < blockExpirationMs"
  by (simp add: blockExpirationMs_def)

lemma ttl_whilst_populates:
  assumes "whilst ttl_env cache network cursor blocks res w = out" and "fst out = Inr v"
    and "(k, es) \<in> set (snd (snd out))" and "BlockFetch n i (Inr b) \<in> set es"
  shows "entries (fst (snd out)) (cache, ''block'', k)
           = Some (block_object b, clock w + blockExpirationMs)"
  using assms
proof (induction rule: whilst_runs)
  case (stop cursor blocks res w)
  then show ?case by simp
next
  case (fail cursor blocks res w err w' es)
  then show ?case by simp
next
  case (step cursor blocks res w blk w' es0 r w'' ps)
  note it = step.hyps(3)
  have c: "clock w' = clock w" using it by (rule ttl_iteration_clock)
  from step.prems(2) consider (first) "k = cursor" "es = es0" | (later) "(k, es) \<in> set ps"
    by auto
  then show ?case
  proof cases
    case first
    with step.prems(3) it
    have "entries w' (cache, ''block'', k) = Some (block_object b, clock w + blockExpirationMs)"
      by (auto dest: ttl_iteration_fetched)
    then have "entries w' (cache, ''block'', k)
        = Some (JObj [(''previous_block_hash'', previous_block_hash b),
                      (''transaction_ids'', transaction_ids b)], clock w + blockExpirationMs)"
      by (simp add: block_object_def)
    from ttl_whilst_keeps [OF step.hyps(4) this] c blockExpirationMs_pos
    show ?thesis by (simp add: block_object_def)
  next
    case later
    with step.IH step.prems c show ?thesis by simp
  qed
qed

section \<open>Claims on the validation of the walker and on the scanner\<close>

text \<open>
  Claim C5. A walker called without a cache selector, without a starting block hash or
  without a network name hands back a failure of code 400, with a tag of its own for each
  of the three (the first missing input decides), makes no call to the cache or the
  Block Source and leaves the world as it was. Missing is anything JavaScript takes for
  false: \<^verbatim>\<open>undefined\<close>, \<^verbatim>\<open>null\<close>, the empty string.
\<close>

theorem walker_validation:
  "(\<not> truthy cache \<longrightarrow>
      get_past_blocks E cache current network w =
        (Inl (JArr [JNum 400, JStr ''ExpectedCacheToCheckAgainst'']), w, []))
   \<and> (truthy cache \<and> \<not> truthy current \<longrightarrow>
      get_past_blocks E cache current network w =
        (Inl (JArr [JNum 400, JStr ''ExpectedCurrentBlockHash'']), w, []))
   \<and> (truthy cache \<and> truthy current \<and> \<not> truthy network \<longrightarrow>
      get_past_blocks E cache current network w =
        (Inl (JArr [JNum 400, JStr ''ExpectedNetworkName'']), w, []))"
  by (simp add: get_past_blocks_def)

text \<open>
  C5 at the three calls that each leave one input \<^verbatim>\<open>undefined\<close>.
\<close>

theorem walker_validation_witness:
  "get_past_blocks ttl_env JUndefined (JStr ''b3'') (JStr ''testnet'') example_world =
     (Inl (JArr [JNum 400, JStr ''ExpectedCacheToCheckAgainst'']), example_world, [])
   \<and> get_past_blocks ttl_env (JStr ''memory'') JUndefined (JStr ''testnet'') example_world =
     (Inl (JArr [JNum 400, JStr ''ExpectedCurrentBlockHash'']), example_world, [])
   \<and> get_past_blocks ttl_env (JStr ''memory'') (JStr ''b3'') JUndefined example_world =
     (Inl (JArr [JNum 400, JStr ''ExpectedNetworkName'']), example_world, [])"
  using walker_validation [where cache = JUndefined and current = "JStr ''b3''"
        and network = "JStr ''testnet''" and E = ttl_env and w = example_world]
    walker_validation [where cache = "JStr ''memory''" and current = JUndefined
        and network = "JStr ''testnet''" and E = ttl_env and w = example_world]
    walker_validation [where cache = "JStr ''memory''" and current = "JStr ''b3''"
        and network = JUndefined and E = ttl_env and w = example_world]
  by simp

text \<open>
  Claim C7. When the detector answers a transaction with a single record tagged
  \<^verbatim>\<open>'funding'\<close>, the scanner emits one notification, named \<^verbatim>\<open>funding\<close>, whose payload has
  the nine fields id, network, index, invoice, output, script, tokens, type and vout, taken
  from the transaction id, the network and the record; it emits no \<^verbatim>\<open>error\<close>.
\<close>

theorem funding_dispatch:
  assumes "detectSwaps cache txid network = Inr [swap]"
    and "field swap ''type'' = JStr ''funding''"
  shows "on_transaction detectSwaps cache network txid =
           [(JStr ''funding'',
             JObj [(''id'', txid),
                   (''network'', network),
                   (''index'', field swap ''index''),
                   (''invoice'', field swap ''invoice''),
                   (''output'', field swap ''output''),
                   (''script'', field swap ''script''),
                   (''tokens'', field swap ''tokens''),
                   (''type'', JStr ''funding''),
                   (''vout'', field swap ''vout'')])]
       \<and> named ''funding'' (on_transaction detectSwaps cache network txid)
           = on_transaction detectSwaps cache network txid
       \<and> named ''error'' (on_transaction detectSwaps cache network txid) = []"
  using assms by (simp add: on_transaction_def notify_swap_def named_def)

text \<open>
  C7 at the record of the specification, for transaction \<^verbatim>\<open>tx1\<close> on \<^verbatim>\<open>testnet\<close>.
\<close>

theorem funding_dispatch_witness:
  "on_transaction (\<lambda>c t n. Inr [example_funding]) (JStr ''memory'') (JStr ''testnet'') (JStr ''tx1'') =
     [(JStr ''funding'',
       JObj [(''id'', JStr ''tx1''),
             (''network'', JStr ''testnet''),
             (''index'', JNum 2),
             (''invoice'', JStr ''lnbc1''),
             (''output'', JStr ''0014''),
             (''script'', JStr ''76a9''),
             (''tokens'', JNum 5000),
             (''type'', JStr ''funding''),
             (''vout'', JNum 0)])]
   \<and> named ''error''
        (on_transaction (\<lambda>c t n. Inr [example_funding]) (JStr ''memory'') (JStr ''testnet'')
           (JStr ''tx1'')) = []"
  using funding_dispatch [where detectSwaps = "\<lambda>c t n. Inr [example_funding]"
      and cache = "JStr ''memory''" and txid = "JStr ''tx1''" and network = "JStr ''testnet''"
      and swap = example_funding]
  by (simp add: field_def example_funding_def named_def)

text \<open>
  Claim C6. When the detector answers with two records, one of a tag that is none of
  \<^verbatim>\<open>claim\<close>, \<^verbatim>\<open>funding\<close>, \<^verbatim>\<open>refund\<close> and one tagged \<^verbatim>\<open>claim\<close>, in either order, the scanner
  emits two notifications: exactly one \<^verbatim>\<open>error\<close> carrying \<^verbatim>\<open>[500, 'UnknownSwapType']\<close> and
  exactly one \<^verbatim>\<open>claim\<close>, the one of the valid record.
\<close>

theorem unknown_type_resilience:
  assumes "detectSwaps cache txid network = Inr swaps"
    and "swaps = [bad, good] \<or> swaps = [good, bad]"
    and "field bad ''type'' \<noteq> JStr ''claim''"
    and "field bad ''type'' \<noteq> JStr ''funding''"
    and "field bad ''type'' \<noteq> JStr ''refund''"
    and "field good ''type'' = JStr ''claim''"
  shows "named ''error'' (on_transaction detectSwaps cache network txid)
           = [(JStr ''error'', JArr [JNum 500, JStr ''UnknownSwapType''])]
       \<and> named ''claim'' (on_transaction detectSwaps cache network txid)
           = [notify_swap txid network good]
       \<and> fst (notify_swap txid network good) = JStr ''claim''
       \<and> length (on_transaction detectSwaps cache network txid) = 2"
  using assms by (auto simp: on_transaction_def notify_swap_def named_def)

text \<open>
  C6 at a record tagged \<^verbatim>\<open>mystery\<close> followed by a claim record.
\<close>

theorem unknown_type_resilience_witness:
  "named ''error''
     (on_transaction (\<lambda>c t n. Inr [example_unknown, example_claim]) (JStr ''memory'')
        (JStr ''testnet'') (JStr ''tx1''))
     = [(JStr ''error'', JArr [JNum 500, JStr ''UnknownSwapType''])]
   \<and> named ''claim''
     (on_transaction (\<lambda>c t n. Inr [example_unknown, example_claim]) (JStr ''memory'')
        (JStr ''testnet'') (JStr ''tx1''))
     = [notify_swap (JStr ''tx1'') (JStr ''testnet'') example_claim]
   \<and> length
     (on_transaction (\<lambda>c t n. Inr [example_unknown, example_claim]) (JStr ''memory'')
        (JStr ''testnet'') (JStr ''tx1'')) = 2"
proof -
  have b: "field example_unknown ''type'' \<noteq> JStr ''claim''"
    "field example_unknown ''type'' \<noteq> JStr ''funding''"
    "field example_unknown ''type'' \<noteq> JStr ''refund''"
    by (simp_all add: field_def example_unknown_def)
  have g: "field example_claim ''type'' = JStr ''claim''"
    by (simp add: field_def example_claim_def)
  show ?thesis
    using b g unknown_type_resilience [where detectSwaps = "\<lambda>c t n. Inr [example_unknown, example_claim]"
      and cache = "JStr ''memory''" and txid = "JStr ''tx1''" and network = "JStr ''testnet''"
      and swaps = "[example_unknown, example_claim]" and bad = example_unknown
      and good = example_claim]
    by (simp add: named_def)
qed

text \<open>
  Claim C8 says that the payload of a claim notification consists of the transaction id,
  the network, the outpoint, the preimage, the redeem script and the type tag, and of
  nothing else; the scanner's own description of the \<^verbatim>\<open>claim\<close> event lists these six
  fields. For the claim record of index 7, in transaction \<^verbatim>\<open>tx1\<close> on \<^verbatim>\<open>testnet\<close>, the
  scanner emits a payload of seven fields: the six and, third, \<^verbatim>\<open>index\<close>.
\<close>

theorem claim_payload_carries_index:
  "field example_claim ''type'' = JStr ''claim''
   \<and> notify_swap (JStr ''tx1'') (JStr ''testnet'') example_claim =
       (JStr ''claim'',
        JObj [(''id'', JStr ''tx1''),
              (''network'', JStr ''testnet''),
              (''index'', JNum 7),
              (''outpoint'', JStr ''aa:0''),
              (''preimage'', JStr ''beef''),
              (''script'', JStr ''76a9''),
              (''type'', JStr ''claim'')])
   \<and> set (field_names (snd (notify_swap (JStr ''tx1'') (JStr ''testnet'') example_claim)))
       \<noteq> {''id'', ''network'', ''outpoint'', ''preimage'', ''script'', ''type''}"
proof -
  have t: "field example_claim ''type'' = JStr ''claim''"
    by (simp add: field_def example_claim_def)
  have n: "notify_swap (JStr ''tx1'') (JStr ''testnet'') example_claim =
       (JStr ''claim'',
        JObj [(''id'', JStr ''tx1''),
              (''network'', JStr ''testnet''),
              (''index'', JNum 7),
              (''outpoint'', JStr ''aa:0''),
              (''preimage'', JStr ''beef''),
              (''script'', JStr ''76a9''),
              (''type'', JStr ''claim'')])"
    by (simp add: notify_swap_def field_def example_claim_def)
  have "''index'' \<in> set (field_names (snd (notify_swap (JStr ''tx1'') (JStr ''testnet'')
      example_claim)))"
    by (simp add: n)
  moreover have
    "''index'' \<notin> {''id'', ''network'', ''outpoint'', ''preimage'', ''script'', ''type''}"
    by simp
  ultimately have
    "set (field_names (snd (notify_swap (JStr ''tx1'') (JStr ''testnet'') example_claim)))
       \<noteq> {''id'', ''network'', ''outpoint'', ''preimage'', ''script'', ''type''}"
    by metis
  with t n show ?thesis by blast
qed

section \<open>Claims on the walk\<close>

lemma get_past_blocks_success:
  assumes "get_past_blocks E cache current network w = (Inr res, w', ps)"
  shows "truthy cache" and "truthy current" and "truthy network"
    and "whilst E cache network current [] JUndefined w = (Inr res, w', ps)"
  using assms by (auto simp: get_past_blocks_def split: if_splits)

lemma get_past_blocks_passes:
  assumes "get_past_blocks E cache current network w = (r, w', ps)" and "ps \<noteq> []"
  shows "whilst E cache network current [] JUndefined w = (r, w', ps)"
  using assms by (auto simp: get_past_blocks_def split: if_splits)

lemma linked_first: "linked c ks bs \<Longrightarrow> ks \<noteq> [] \<Longrightarrow> ks ! 0 = c"
  by (induction c ks bs rule: linked.induct) auto

lemma linked_next:
  "linked c ks bs \<Longrightarrow> Suc i < length bs \<Longrightarrow>
   ks ! Suc i = js_prop (bs ! i) ''previous_block_hash'' \<and> truthy (ks ! Suc i)"
proof (induction c ks bs arbitrary: i rule: linked.induct)
  case (2 c k ks b bs)
  show ?case
  proof (cases i)
    case 0
    with "2.prems" obtain k' ks' b' bs' where "ks = k' # ks'" "bs = b' # bs'"
      by (cases ks; cases bs) auto
    with "2.prems" 0 show ?thesis by auto
  next
    case (Suc j)
    with "2.prems" "2.IH" [of j] show ?thesis by auto
  qed
qed simp_all

lemma journal_Nil [simp]: "journal [] = []"
  by (simp add: journal_def)

lemma journal_Cons [simp]: "journal (p # ps) = snd p @ journal ps"
  by (simp add: journal_def)

lemma count_one_per_pass:
  "\<forall>p\<in>set ps. length (filter P (snd p)) = 1 \<Longrightarrow> length (filter P (journal ps)) = length ps"
  by (induction ps) auto

lemma count_most_one_per_pass:
  "\<forall>p\<in>set ps. length (filter P (snd p)) \<le> 1 \<Longrightarrow> length (filter P (journal ps)) \<le> length ps"
  by (induction ps) auto

lemma map_filter_length: "length (List.map_filter f xs) \<le> length xs"
  by (induction xs) (auto simp: map_filter_simps split: option.splits)

lemma map_filter_full:
  "length (List.map_filter f xs) = length xs \<Longrightarrow> i < length xs \<Longrightarrow>
   f (xs ! i) = Some (List.map_filter f xs ! i)"
proof (induction xs arbitrary: i)
  case Nil
  then show ?case by simp
next
  case (Cons x xs)
  have le: "length (List.map_filter f xs) \<le> length xs" by (rule map_filter_length)
  show ?case
  proof (cases "f x")
    case None
    with Cons.prems le show ?thesis by (simp add: map_filter_simps)
  next
    case (Some y)
    with Cons show ?thesis by (cases i) (simp_all add: map_filter_simps)
  qed
qed

lemma success_passes_quiet:
  assumes "whilst E cache network cursor blocks res w = (Inr v, w', ps)"
  shows "\<forall>p\<in>set ps. (\<forall>e\<in>set (snd p). failure_of e = None)
           \<and> length (filter is_lookup (snd p)) = 1 \<and> length (filter is_fetch (snd p)) \<le> 1"
proof
  fix p assume "p \<in> set ps"
  with whilst_success_passes [OF assms, of v] obtain w0 blk w1 where
    "iteration E cache network (fst p) w0 = (Inr blk, w1, snd p)" by auto
  from iteration_resolved(2,3,4) [OF this]
  show "(\<forall>e\<in>set (snd p). failure_of e = None)
           \<and> length (filter is_lookup (snd p)) = 1 \<and> length (filter is_fetch (snd p)) \<le> 1"
    by simp
qed

text \<open>
  Claim C1. A walk that ends well hands over \<^verbatim>\<open>{blocks}\<close> with at least one and at most
  10 blocks. When each of the first nine blocks collected has a previous hash there are
  exactly 10. When the \<open>k\<close>-th block collected has none (nothing JavaScript takes for true)
  there are exactly \<open>k\<close>: the walk made as many passes and as many cache lookups as it
  hands over blocks, and no more fetches than that, so nothing was looked up or fetched
  after that block.
\<close>

theorem walker_page_bound:
  assumes "get_past_blocks E cache current network w = (Inr res, w', ps)"
  shows "\<exists>bs. res = JObj [(''blocks'', JArr bs)]
      \<and> 0 < length bs \<and> length bs \<le> 10
      \<and> ((\<forall>i<length bs. i < 9 \<longrightarrow> truthy (js_prop (bs ! i) ''previous_block_hash''))
           \<longrightarrow> length bs = 10)
      \<and> (\<forall>k. 0 < k \<and> k \<le> length bs
              \<and> \<not> truthy (js_prop (bs ! (k - 1)) ''previous_block_hash'') \<longrightarrow> length bs = k)
      \<and> length ps = length bs
      \<and> length (filter is_lookup (journal ps)) = length bs
      \<and> length (filter is_fetch (journal ps)) \<le> length bs"
proof -
  note run = get_past_blocks_success(4) [OF assms]
  from whilst_success [OF run, of res]
  have wk: "walked current [] JUndefined res ps" by simp
  let ?bs = "delivered ps"
  have len: "length ?bs = length ps" using wk by (simp add: walked_def)
  have ne: "ps \<noteq> []"
    using wk get_past_blocks_success(2) [OF assms]
    by (auto simp: walked_def fetchBlocksCount_def)
  have res: "res = JObj [(''blocks'', JArr ?bs)]"
    using wk ne by (simp add: walked_def)
  have bound: "length ps \<le> 10"
    using wk by (simp add: walked_def fetchBlocksCount_def)
  have stop: "length ps < 10 \<longrightarrow> \<not> truthy (js_prop (last ?bs) ''previous_block_hash'')"
    using wk ne by (simp add: walked_def fetchBlocksCount_def)
  have lk: "linked current (map fst ps) ?bs" using wk by (simp add: walked_def)
  have full: "(\<forall>i<length ?bs. i < 9 \<longrightarrow> truthy (js_prop (?bs ! i) ''previous_block_hash''))
      \<longrightarrow> length ?bs = 10"
  proof
    assume all: "\<forall>i<length ?bs. i < 9 \<longrightarrow> truthy (js_prop (?bs ! i) ''previous_block_hash'')"
    show "length ?bs = 10"
    proof (rule ccontr)
      assume "length ?bs \<noteq> 10"
      with bound len have lt: "length ps < 10" by simp
      have "?bs \<noteq> []" using ne len by auto
      then have "last ?bs = ?bs ! (length ?bs - 1)" by (rule last_conv_nth)
      moreover have "length ?bs - 1 < length ?bs" "length ?bs - 1 < 9"
        using ne len lt by (cases ps; simp)+
      ultimately have "truthy (js_prop (last ?bs) ''previous_block_hash'')"
        using all by simp
      with stop lt show False by simp
    qed
  qed
  have early: "\<forall>k. 0 < k \<and> k \<le> length ?bs
      \<and> \<not> truthy (js_prop (?bs ! (k - 1)) ''previous_block_hash'') \<longrightarrow> length ?bs = k"
  proof (intro allI impI)
    fix k assume k: "0 < k \<and> k \<le> length ?bs
      \<and> \<not> truthy (js_prop (?bs ! (k - 1)) ''previous_block_hash'')"
    show "length ?bs = k"
    proof (rule ccontr)
      assume "length ?bs \<noteq> k"
      with k have "Suc (k - 1) < length ?bs" by simp
      from linked_next [OF lk this] k show False by auto
    qed
  qed
  note q = success_passes_quiet [OF run]
  have c1: "length (filter is_lookup (journal ps)) = length ps"
    using q by (intro count_one_per_pass) simp
  have c2: "length (filter is_fetch (journal ps)) \<le> length ps"
    using q by (intro count_most_one_per_pass) simp
  show ?thesis
    using res ne len bound full early c1 c2
    by (intro exI [of _ ?bs]) simp
qed


text \<open>
  Claim C3. In a walk that ends well, block \<open>i\<close> of the result is the block pass \<open>i\<close>
  resolved, every call of that pass was made for the cursor of the pass, the first cursor
  is the starting hash, and the cursor of pass \<open>i + 1\<close> is the previous hash of block
  \<open>i\<close>: the lookup and the fetch behind block \<open>i + 1\<close> were made for
  \<^verbatim>\<open>result[i].previous_block_hash\<close>.
\<close>

theorem walker_chaining:
  assumes "get_past_blocks E cache current network w = (Inr res, w', ps)"
  shows "\<exists>bs. res = JObj [(''blocks'', JArr bs)] \<and> length ps = length bs
      \<and> (\<forall>i<length bs. resolved (snd (ps ! i)) = Some (bs ! i)
             \<and> (\<forall>e\<in>set (snd (ps ! i)). hash_of e = fst (ps ! i)))
      \<and> fst (ps ! 0) = current
      \<and> (\<forall>i. Suc i < length bs \<longrightarrow>
             fst (ps ! Suc i) = js_prop (bs ! i) ''previous_block_hash''
             \<and> (\<forall>e\<in>set (snd (ps ! Suc i)).
                   hash_of e = js_prop (bs ! i) ''previous_block_hash''))"
proof -
  note run = get_past_blocks_success(4) [OF assms]
  from whilst_success [OF run, of res]
  have wk: "walked current [] JUndefined res ps" by simp
  let ?bs = "delivered ps"
  have len: "length ?bs = length ps" using wk by (simp add: walked_def)
  have ne: "ps \<noteq> []"
    using wk get_past_blocks_success(2) [OF assms]
    by (auto simp: walked_def fetchBlocksCount_def)
  have res: "res = JObj [(''blocks'', JArr ?bs)]"
    using wk ne by (simp add: walked_def)
  have lk: "linked current (map fst ps) ?bs" using wk by (simp add: walked_def)
  have hash: "\<forall>e\<in>set (snd (ps ! i)). hash_of e = fst (ps ! i)" if "i < length ps" for i
  proof -
    from that have "ps ! i \<in> set ps" by simp
    with whilst_passes [OF run] obtain w0 r0 w1 where
      "iteration E cache network (fst (ps ! i)) w0 = (r0, w1, snd (ps ! i))" by auto
    then show ?thesis by (rule iteration_hash)
  qed
  have blk: "resolved (snd (ps ! i)) = Some (?bs ! i)" if "i < length ps" for i
    using map_filter_full [of "\<lambda>p. resolved (snd p)" ps i] len that
    by (simp add: delivered_def)
  have first: "fst (ps ! 0) = current"
    using linked_first [OF lk] ne by (simp add: nth_map)
  have nxt: "fst (ps ! Suc i) = js_prop (?bs ! i) ''previous_block_hash''"
    if "Suc i < length ?bs" for i
    using linked_next [OF lk that] that len by simp
  show ?thesis
    using res len hash blk first nxt
    by (intro exI [of _ ?bs]) simp
qed

text \<open>
  Claim C4. When a call of the walk fails, be it a cache lookup, a fetch from the Block
  Source or a cache write, in whatever pass, the walk hands over that very failure and
  nothing else (the result is the failure alone, no blocks), and the failed call is the
  last call the walk made: every call before it went well, none follows it.
\<close>

theorem walker_failure_fatal:
  assumes "get_past_blocks E cache current network w = (r, w', ps)"
    and "ev \<in> set (journal ps)" and "failure_of ev = Some err"
  shows "r = Inl err
       \<and> (\<exists>pre. journal ps = pre @ [ev] \<and> (\<forall>e\<in>set pre. failure_of e = None))"
proof -
  from assms(2) have ne: "ps \<noteq> []" by auto
  note run = get_past_blocks_passes [OF assms(1) ne]
  show ?thesis
  proof (cases r)
    case (Inr v)
    with run success_passes_quiet [of E cache network current "[]" JUndefined w v w' ps]
    have "\<forall>p\<in>set ps. \<forall>e\<in>set (snd p). failure_of e = None" by simp
    with assms(2,3) show ?thesis by (auto simp: journal_def)
  next
    case (Inl e)
    with run whilst_failure [of E cache network current "[]" JUndefined w "(r, w', ps)" e]
    obtain ps' k es ev' where f: "ps = ps' @ [(k, es @ [ev'])]" "failure_of ev' = Some e"
      "\<forall>x\<in>set es. failure_of x = None" "\<forall>p\<in>set ps'. \<forall>x\<in>set (snd p). failure_of x = None"
      by auto
    have j: "journal ps = (journal ps' @ es) @ [ev']"
      using f(1) by (simp add: journal_def)
    have q: "\<forall>x\<in>set (journal ps' @ es). failure_of x = None"
      using f(3,4) by (auto simp: journal_def)
    from assms(2,3) j q have "ev = ev'" by auto
    with f(2) assms(3) Inl j q show ?thesis by auto
  qed
qed

text \<open>
  Claim C10. Every cache write of a walk is made for the selected cache, under type
  \<^verbatim>\<open>'block'\<close>, with the cursor of its pass as key and the fixed expiry; the value written
  has exactly the fields \<^verbatim>\<open>previous_block_hash\<close> and \<^verbatim>\<open>transaction_ids\<close>, so no
  \<^verbatim>\<open>is_cached\<close>; it is the block just fetched for that cursor after the lookup found
  nothing, and it is the last call of its pass.
\<close>

theorem walker_cache_writes:
  assumes "get_past_blocks E cache current network w = (r, w', ps)"
    and "(k, es) \<in> set ps" and "CacheWrite c key ms t val x \<in> set es"
  shows "c = cache \<and> key = k \<and> t = ''block'' \<and> ms = blockExpirationMs
       \<and> field_names val = [''previous_block_hash'', ''transaction_ids'']
       \<and> ''is_cached'' \<notin> set (field_names val)
       \<and> (\<exists>v b. \<not> truthy v \<and> val = block_object b
             \<and> es = [CacheRead cache k ''block'' (Inr v), BlockFetch network k (Inr b),
                     CacheWrite cache k blockExpirationMs ''block'' (block_object b) x])"
proof -
  from assms(2) have ne: "ps \<noteq> []" by auto
  note run = get_past_blocks_passes [OF assms(1) ne]
  from whilst_passes [OF run] assms(2) obtain w0 r0 w1 where
    it: "iteration E cache network k w0 = (r0, w1, es)" by force
  from it assms(3) show ?thesis
    by (cases rule: iteration_cases) (auto simp: block_object_def)
qed


lemma pass_shape:
  assumes "iteration E cache network k w0 = (r0, w1, es)"
  shows "\<exists>x rest. es = CacheRead cache k ''block'' x # rest
      \<and> (\<forall>e. x = Inl e \<longrightarrow> rest = [])
      \<and> (\<forall>v. x = Inr v \<and> truthy v \<longrightarrow> rest = [])
      \<and> (\<forall>v. x = Inr v \<and> \<not> truthy v \<longrightarrow>
            (\<exists>y rest'. rest = BlockFetch network k y # rest'
               \<and> (\<forall>e. y = Inl e \<longrightarrow> rest' = [])
               \<and> (\<forall>b. y = Inr b \<longrightarrow>
                     (\<exists>z. rest' = [CacheWrite cache k blockExpirationMs ''block''
                                     (block_object b) z]))))"
  using assms by (cases rule: iteration_cases) auto

lemma live_object:
  "live w a = Some v \<Longrightarrow> \<exists>t. entries w a = Some (v, t) \<and> clock w < t"
  by (auto simp: live_def split: option.splits if_splits)

lemma ttl_walk_keeps:
  assumes "get_past_blocks ttl_env cache current network w = (r, w', ps)"
    and "entries w (cache, ''block'', h) = Some (JObj fs, t)" and "clock w < t"
  shows "\<forall>p\<in>set ps. \<forall>e\<in>set (snd p). \<not> (is_fetch e \<and> hash_of e = h)"
proof (cases "ps = []")
  case True
  then show ?thesis by simp
next
  case False
  note run = get_past_blocks_passes [OF assms(1) False]
  from ttl_whilst_keeps [OF run assms(2,3)] show ?thesis by simp
qed

text \<open>
  Claim C2, with the cache of the specification. Every pass starts with a lookup of its
  cursor in the selected cache under type \<^verbatim>\<open>'block'\<close>. When the lookup fails or finds a
  value the pass makes no other call: the Block Source is not asked. When it finds nothing
  the pass fetches the cursor from the Block Source on the given network, and a fetched
  block is written to the cache under the cursor with the expiry of three hours. A hash
  the cache holds an object for when the walk starts is never fetched in that walk. After
  a walk that ended well, a hash it fetched is in the cache with its block, expiring three
  hours after the walk's time; and a later walk with the same cache selector, from any
  world that still has this entry and whose clock is before that expiry, never fetches
  this hash.
\<close>

theorem walker_cache_first:
  assumes "get_past_blocks ttl_env cache current network w = (r, w', ps)"
  shows "(\<forall>k es. (k, es) \<in> set ps \<longrightarrow>
           (\<exists>x rest. es = CacheRead cache k ''block'' x # rest
              \<and> (\<forall>e. x = Inl e \<longrightarrow> rest = [])
              \<and> (\<forall>v. x = Inr v \<and> truthy v \<longrightarrow> rest = [])
              \<and> (\<forall>v. x = Inr v \<and> \<not> truthy v \<longrightarrow>
                    (\<exists>y rest'. rest = BlockFetch network k y # rest'
                       \<and> (\<forall>e. y = Inl e \<longrightarrow> rest' = [])
                       \<and> (\<forall>b. y = Inr b \<longrightarrow>
                             (\<exists>z. rest' = [CacheWrite cache k blockExpirationMs ''block''
                                             (block_object b) z]))))))
       \<and> blockExpirationMs = 3 * 60 * 60 * 1000
       \<and> (\<forall>h fs. live w (cache, ''block'', h) = Some (JObj fs) \<longrightarrow>
             (\<forall>p\<in>set ps. \<forall>e\<in>set (snd p). \<not> (is_fetch e \<and> hash_of e = h)))
       \<and> (\<forall>res k es n b.
             r = Inr res \<and> (k, es) \<in> set ps \<and> BlockFetch n k (Inr b) \<in> set es \<longrightarrow>
               entries w' (cache, ''block'', k)
                 = Some (block_object b, clock w + blockExpirationMs)
               \<and> (\<forall>w2 current2 network2 r2 w3 ps2.
                     entries w2 (cache, ''block'', k) = entries w' (cache, ''block'', k)
                     \<and> clock w2 < clock w + blockExpirationMs
                     \<and> get_past_blocks ttl_env cache current2 network2 w2 = (r2, w3, ps2)
                     \<longrightarrow> (\<forall>p\<in>set ps2. \<forall>e\<in>set (snd p). \<not> (is_fetch e \<and> hash_of e = k))))"
proof (intro conjI allI impI)
  fix k es assume p: "(k, es) \<in> set ps"
  then have ne: "ps \<noteq> []" by auto
  note run = get_past_blocks_passes [OF assms ne]
  from whilst_passes [OF run] p obtain w0 r0 w1 where
    "iteration ttl_env cache network k w0 = (r0, w1, es)" by force
  then show "\<exists>x rest. es = CacheRead cache k ''block'' x # rest
              \<and> (\<forall>e. x = Inl e \<longrightarrow> rest = [])
              \<and> (\<forall>v. x = Inr v \<and> truthy v \<longrightarrow> rest = [])
              \<and> (\<forall>v. x = Inr v \<and> \<not> truthy v \<longrightarrow>
                    (\<exists>y rest'. rest = BlockFetch network k y # rest'
                       \<and> (\<forall>e. y = Inl e \<longrightarrow> rest' = [])
                       \<and> (\<forall>b. y = Inr b \<longrightarrow>
                             (\<exists>z. rest' = [CacheWrite cache k blockExpirationMs ''block''
                                             (block_object b) z]))))"
    by (rule pass_shape)
next
  show "blockExpirationMs = 3 * 60 * 60 * 1000" by (simp add: blockExpirationMs_def)
next
  fix h fs assume "live w (cache, ''block'', h) = Some (JObj fs)"
  then obtain t where "entries w (cache, ''block'', h) = Some (JObj fs, t)" "clock w < t"
    by (blast dest: live_object)
  from ttl_walk_keeps [OF assms this]
  show "\<forall>p\<in>set ps. \<forall>e\<in>set (snd p). \<not> (is_fetch e \<and> hash_of e = h)" .
next
  fix res k es n b
  assume a: "r = Inr res \<and> (k, es) \<in> set ps \<and> BlockFetch n k (Inr b) \<in> set es"
  then have ne: "ps \<noteq> []" by auto
  note run = get_past_blocks_passes [OF assms ne]
  from ttl_whilst_populates [OF run, of res k es n k b] a
  show "entries w' (cache, ''block'', k) = Some (block_object b, clock w + blockExpirationMs)"
    by simp
next
  fix res k es n b w2 current2 network2 r2 w3 ps2
  assume a: "r = Inr res \<and> (k, es) \<in> set ps \<and> BlockFetch n k (Inr b) \<in> set es"
    and b: "entries w2 (cache, ''block'', k) = entries w' (cache, ''block'', k)
       \<and> clock w2 < clock w + blockExpirationMs
       \<and> get_past_blocks ttl_env cache current2 network2 w2 = (r2, w3, ps2)"
  from a have ne: "ps \<noteq> []" by auto
  note run = get_past_blocks_passes [OF assms ne]
  from ttl_whilst_populates [OF run, of res k es n k b] a
  have "entries w' (cache, ''block'', k) = Some (block_object b, clock w + blockExpirationMs)"
    by simp
  with b have "entries w2 (cache, ''block'', k)
      = Some (JObj [(''previous_block_hash'', previous_block_hash b),
                    (''transaction_ids'', transaction_ids b)], clock w + blockExpirationMs)"
    by (simp add: block_object_def)
  from ttl_walk_keeps [OF _ this] b
  show "\<forall>p\<in>set ps2. \<forall>e\<in>set (snd p). \<not> (is_fetch e \<and> hash_of e = k)"
    by blast
qed


lemmas walk_eval =
  get_past_blocks_def whilst.simps iteration_def getCachedBlock_task_def getBlock_task_def
  setCachedBlock_task_def ttl_env_def ttl_get_def ttl_set_def chain_get_def live_def
  example_world_def example_chain_def unary_world_def unary_chain_def cached_world_def
  faulty_world_def fetchBlocksCount_def blockExpirationMs_def block_object_def Let_def

lemma triple_of_fst: "fst X = a \<Longrightarrow> X = (a, fst (snd X), snd (snd X))"
  by (simp add: prod_eq_iff)

lemma unary_walk_result:
  "\<exists>bs. fst (get_past_blocks ttl_env (JStr ''memory'') (JStr ''aaaaaaaaaaaa'') (JStr ''testnet'')
              unary_world) = Inr (JObj [(''blocks'', JArr bs)]) \<and> length bs = 10"
  by (simp add: walk_eval)

lemma example_walk_result:
  "fst (get_past_blocks ttl_env (JStr ''memory'') (JStr ''b3'') (JStr ''testnet'') example_world)
     = Inr (JObj [(''blocks'', JArr
         [JObj [(''previous_block_hash'', JStr ''b2''), (''transaction_ids'', JArr [JStr ''t3''])],
          JObj [(''previous_block_hash'', JStr ''b1''), (''transaction_ids'', JArr [JStr ''t2''])],
          JObj [(''previous_block_hash'', JUndefined), (''transaction_ids'', JArr [JStr ''t1''])]])])"
  by (simp add: walk_eval)

text \<open>
  C1 on a chain longer than the page, where the walk stops at 10 blocks after 10 lookups,
  and on the chain of three blocks, where it stops at the block without a previous hash
  after 3 lookups.
\<close>

theorem walker_page_bound_witness:
  "length (snd (snd (get_past_blocks ttl_env (JStr ''memory'') (JStr ''aaaaaaaaaaaa'')
       (JStr ''testnet'') unary_world))) = 10
   \<and> length (filter is_lookup (journal (snd (snd (get_past_blocks ttl_env (JStr ''memory'')
       (JStr ''aaaaaaaaaaaa'') (JStr ''testnet'') unary_world))))) = 10
   \<and> length (snd (snd (get_past_blocks ttl_env (JStr ''memory'') (JStr ''b3'')
       (JStr ''testnet'') example_world))) = 3
   \<and> length (filter is_lookup (journal (snd (snd (get_past_blocks ttl_env (JStr ''memory'')
       (JStr ''b3'') (JStr ''testnet'') example_world))))) = 3"
proof -
  from unary_walk_result obtain bs where
    "fst (get_past_blocks ttl_env (JStr ''memory'') (JStr ''aaaaaaaaaaaa'') (JStr ''testnet'')
       unary_world) = Inr (JObj [(''blocks'', JArr bs)])" and ten: "length bs = 10"
    by blast
  from walker_page_bound [OF triple_of_fst [OF this(1)]] ten
  have long: "length (snd (snd (get_past_blocks ttl_env (JStr ''memory'') (JStr ''aaaaaaaaaaaa'')
       (JStr ''testnet'') unary_world))) = 10
   \<and> length (filter is_lookup (journal (snd (snd (get_past_blocks ttl_env (JStr ''memory'')
       (JStr ''aaaaaaaaaaaa'') (JStr ''testnet'') unary_world))))) = 10"
    by auto
  from walker_page_bound [OF triple_of_fst [OF example_walk_result]]
  have short: "length (snd (snd (get_past_blocks ttl_env (JStr ''memory'') (JStr ''b3'')
       (JStr ''testnet'') example_world))) = 3
   \<and> length (filter is_lookup (journal (snd (snd (get_past_blocks ttl_env (JStr ''memory'')
       (JStr ''b3'') (JStr ''testnet'') example_world))))) = 3"
    by auto
  from long short show ?thesis by simp
qed

text \<open>
  C3 on the chain of three blocks: the cursors are \<^verbatim>\<open>b3\<close>, \<^verbatim>\<open>b2\<close>, \<^verbatim>\<open>b1\<close>, and the third
  pass resolved the block without a previous hash.
\<close>

theorem walker_chaining_witness:
  "fst (snd (snd (get_past_blocks ttl_env (JStr ''memory'') (JStr ''b3'') (JStr ''testnet'')
         example_world)) ! 0) = JStr ''b3''
   \<and> fst (snd (snd (get_past_blocks ttl_env (JStr ''memory'') (JStr ''b3'') (JStr ''testnet'')
         example_world)) ! 1) = JStr ''b2''
   \<and> fst (snd (snd (get_past_blocks ttl_env (JStr ''memory'') (JStr ''b3'') (JStr ''testnet'')
         example_world)) ! 2) = JStr ''b1''
   \<and> resolved (snd (snd (snd (get_past_blocks ttl_env (JStr ''memory'') (JStr ''b3'')
         (JStr ''testnet'') example_world)) ! 2))
       = Some (JObj [(''previous_block_hash'', JUndefined),
                     (''transaction_ids'', JArr [JStr ''t1''])])"
proof -
  from walker_chaining [OF triple_of_fst [OF example_walk_result]]
  obtain bs where bs:
    "JObj [(''blocks'', JArr
         [JObj [(''previous_block_hash'', JStr ''b2''), (''transaction_ids'', JArr [JStr ''t3''])],
          JObj [(''previous_block_hash'', JStr ''b1''), (''transaction_ids'', JArr [JStr ''t2''])],
          JObj [(''previous_block_hash'', JUndefined), (''transaction_ids'', JArr [JStr ''t1''])]])]
       = JObj [(''blocks'', JArr bs)]"
    and rest: "\<forall>i<length bs. resolved (snd (snd (snd (get_past_blocks ttl_env (JStr ''memory'')
         (JStr ''b3'') (JStr ''testnet'') example_world)) ! i)) = Some (bs ! i)"
      "fst (snd (snd (get_past_blocks ttl_env (JStr ''memory'') (JStr ''b3'') (JStr ''testnet'')
         example_world)) ! 0) = JStr ''b3''"
      "\<forall>i. Suc i < length bs \<longrightarrow>
         fst (snd (snd (get_past_blocks ttl_env (JStr ''memory'') (JStr ''b3'') (JStr ''testnet'')
           example_world)) ! Suc i) = js_prop (bs ! i) ''previous_block_hash''"
    by auto
  from bs have bs': "bs =
         [JObj [(''previous_block_hash'', JStr ''b2''), (''transaction_ids'', JArr [JStr ''t3''])],
          JObj [(''previous_block_hash'', JStr ''b1''), (''transaction_ids'', JArr [JStr ''t2''])],
          JObj [(''previous_block_hash'', JUndefined), (''transaction_ids'', JArr [JStr ''t1''])]]"
    by simp
  from rest(1) [rule_format, of 2] rest(2) rest(3) [rule_format, of 0]
    rest(3) [rule_format, of 1]
  show ?thesis by (simp add: bs' numeral_2_eq_2)
qed


lemma faulty_walk_passes:
  "snd (snd (get_past_blocks ttl_env (JStr ''memory'') (JStr ''b3'') (JStr ''testnet'')
       faulty_world))
   = [(JStr ''b3'',
       [CacheRead (JStr ''memory'') (JStr ''b3'') ''block'' (Inr JUndefined),
        BlockFetch (JStr ''testnet'') (JStr ''b3'')
          (Inr \<lparr>previous_block_hash = JStr ''b2'', transaction_ids = JArr [JStr ''t3'']\<rparr>),
        CacheWrite (JStr ''memory'') (JStr ''b3'') 10800000 ''block''
          (JObj [(''previous_block_hash'', JStr ''b2''), (''transaction_ids'', JArr [JStr ''t3''])])
          (Inr ())]),
      (JStr ''b2'',
       [CacheRead (JStr ''memory'') (JStr ''b2'') ''block'' (Inr JUndefined),
        BlockFetch (JStr ''testnet'') (JStr ''b2'')
          (Inr \<lparr>previous_block_hash = JStr ''b1'', transaction_ids = JArr [JStr ''t2'']\<rparr>),
        CacheWrite (JStr ''memory'') (JStr ''b2'') 10800000 ''block''
          (JObj [(''previous_block_hash'', JStr ''b1''), (''transaction_ids'', JArr [JStr ''t2''])])
          (Inl (JArr [JNum 500, JStr ''CacheWriteFailure'']))])]"
  by (simp add: walk_eval)

text \<open>
  C4 where the cache refuses the write for \<^verbatim>\<open>b2\<close>: the walk from \<^verbatim>\<open>b3\<close> hands over the
  failure of that write after six calls, although \<^verbatim>\<open>b3\<close> had been resolved.
\<close>

theorem walker_failure_fatal_witness:
  "fst (get_past_blocks ttl_env (JStr ''memory'') (JStr ''b3'') (JStr ''testnet'') faulty_world)
     = Inl (JArr [JNum 500, JStr ''CacheWriteFailure''])
   \<and> length (journal (snd (snd (get_past_blocks ttl_env (JStr ''memory'') (JStr ''b3'')
        (JStr ''testnet'') faulty_world)))) = 6"
proof -
  let ?ev = "CacheWrite (JStr ''memory'') (JStr ''b2'') 10800000 ''block''
          (JObj [(''previous_block_hash'', JStr ''b1''), (''transaction_ids'', JArr [JStr ''t2''])])
          (Inl (JArr [JNum 500, JStr ''CacheWriteFailure'']))"
  have m: "?ev \<in> set (journal (snd (snd (get_past_blocks ttl_env (JStr ''memory'') (JStr ''b3'')
        (JStr ''testnet'') faulty_world))))"
    by (simp add: faulty_walk_passes)
  have f: "failure_of ?ev = Some (JArr [JNum 500, JStr ''CacheWriteFailure''])"
    by simp
  from walker_failure_fatal [OF triple_of_fst [OF refl] m f]
  show ?thesis by (simp add: faulty_walk_passes)
qed

lemma example_walk_passes:
  "snd (snd (get_past_blocks ttl_env (JStr ''memory'') (JStr ''b2'') (JStr ''testnet'')
       example_world))
   = [(JStr ''b2'',
       [CacheRead (JStr ''memory'') (JStr ''b2'') ''block'' (Inr JUndefined),
        BlockFetch (JStr ''testnet'') (JStr ''b2'')
          (Inr \<lparr>previous_block_hash = JStr ''b1'', transaction_ids = JArr [JStr ''t2'']\<rparr>),
        CacheWrite (JStr ''memory'') (JStr ''b2'') 10800000 ''block''
          (JObj [(''previous_block_hash'', JStr ''b1''), (''transaction_ids'', JArr [JStr ''t2''])])
          (Inr ())]),
      (JStr ''b1'',
       [CacheRead (JStr ''memory'') (JStr ''b1'') ''block'' (Inr JUndefined),
        BlockFetch (JStr ''testnet'') (JStr ''b1'')
          (Inr \<lparr>previous_block_hash = JUndefined, transaction_ids = JArr [JStr ''t1'']\<rparr>),
        CacheWrite (JStr ''memory'') (JStr ''b1'') 10800000 ''block''
          (JObj [(''previous_block_hash'', JUndefined), (''transaction_ids'', JArr [JStr ''t1''])])
          (Inr ())])]"
  by (simp add: walk_eval)

lemma example_walk_ok:
  "fst (get_past_blocks ttl_env (JStr ''memory'') (JStr ''b2'') (JStr ''testnet'') example_world)
     = Inr (JObj [(''blocks'', JArr
         [JObj [(''previous_block_hash'', JStr ''b1''), (''transaction_ids'', JArr [JStr ''t2''])],
          JObj [(''previous_block_hash'', JUndefined), (''transaction_ids'', JArr [JStr ''t1''])]])])"
  by (simp add: walk_eval)

text \<open>
  C10 at the first pass of the walk from \<^verbatim>\<open>b2\<close> over an empty cache.
\<close>

theorem walker_cache_writes_witness:
  "field_names (JObj [(''previous_block_hash'', JStr ''b1''),
                      (''transaction_ids'', JArr [JStr ''t2''])])
     = [''previous_block_hash'', ''transaction_ids'']
   \<and> (10800000 :: nat) = blockExpirationMs
   \<and> length (snd (snd (get_past_blocks ttl_env (JStr ''memory'') (JStr ''b2'') (JStr ''testnet'')
        example_world))) = 2"
proof -
  let ?es = "[CacheRead (JStr ''memory'') (JStr ''b2'') ''block'' (Inr JUndefined),
        BlockFetch (JStr ''testnet'') (JStr ''b2'')
          (Inr \<lparr>previous_block_hash = JStr ''b1'', transaction_ids = JArr [JStr ''t2'']\<rparr>),
        CacheWrite (JStr ''memory'') (JStr ''b2'') 10800000 ''block''
          (JObj [(''previous_block_hash'', JStr ''b1''), (''transaction_ids'', JArr [JStr ''t2''])])
          (Inr ())]"
  have p: "(JStr ''b2'', ?es) \<in> set (snd (snd (get_past_blocks ttl_env (JStr ''memory'')
      (JStr ''b2'') (JStr ''testnet'') example_world)))"
    by (simp add: example_walk_passes)
  have e: "CacheWrite (JStr ''memory'') (JStr ''b2'') 10800000 ''block''
          (JObj [(''previous_block_hash'', JStr ''b1''), (''transaction_ids'', JArr [JStr ''t2''])])
          (Inr ()) \<in> set ?es"
    by simp
  from walker_cache_writes [OF triple_of_fst [OF refl] p e]
  show ?thesis by (simp add: example_walk_passes block_object_def blockExpirationMs_def)
qed

lemma no_fetch_filter:
  "\<forall>p\<in>set ps. \<forall>e\<in>set (snd p). \<not> P e \<Longrightarrow> filter P (journal ps) = []"
  by (induction ps) (auto simp: filter_empty_conv)

text \<open>
  C2 on the chain of three blocks: the walk from \<^verbatim>\<open>b2\<close> over an empty cache leaves \<^verbatim>\<open>b2\<close>
  in the cache; an hour later the walk from \<^verbatim>\<open>b3\<close> does not fetch \<^verbatim>\<open>b2\<close>; nor does a
  walk from \<^verbatim>\<open>b3\<close> over a cache that held \<^verbatim>\<open>b2\<close> from the start.
\<close>

theorem walker_cache_first_witness:
  "entries (fst (snd (get_past_blocks ttl_env (JStr ''memory'') (JStr ''b2'') (JStr ''testnet'')
       example_world))) (JStr ''memory'', ''block'', JStr ''b2'')
     = Some (JObj [(''previous_block_hash'', JStr ''b1''),
                   (''transaction_ids'', JArr [JStr ''t2''])], 10800000)
   \<and> filter (\<lambda>e. is_fetch e \<and> hash_of e = JStr ''b2'')
        (journal (snd (snd (get_past_blocks ttl_env (JStr ''memory'') (JStr ''b3'')
           (JStr ''testnet'')
           ((fst (snd (get_past_blocks ttl_env (JStr ''memory'') (JStr ''b2'') (JStr ''testnet'')
               example_world)))\<lparr>clock := 3600000\<rparr>))))) = []
   \<and> filter (\<lambda>e. is_fetch e \<and> hash_of e = JStr ''b2'')
        (journal (snd (snd (get_past_blocks ttl_env (JStr ''memory'') (JStr ''b3'')
           (JStr ''testnet'') cached_world)))) = []"
proof -
  let ?X = "get_past_blocks ttl_env (JStr ''memory'') (JStr ''b2'') (JStr ''testnet'')
       example_world"
  let ?b = "\<lparr>previous_block_hash = JStr ''b1'', transaction_ids = JArr [JStr ''t2'']\<rparr>"
  let ?es = "[CacheRead (JStr ''memory'') (JStr ''b2'') ''block'' (Inr JUndefined),
        BlockFetch (JStr ''testnet'') (JStr ''b2'') (Inr ?b),
        CacheWrite (JStr ''memory'') (JStr ''b2'') 10800000 ''block''
          (JObj [(''previous_block_hash'', JStr ''b1''), (''transaction_ids'', JArr [JStr ''t2''])])
          (Inr ())]"
  let ?w2 = "(fst (snd ?X))\<lparr>clock := 3600000\<rparr>"
  let ?Y = "get_past_blocks ttl_env (JStr ''memory'') (JStr ''b3'') (JStr ''testnet'') ?w2"
  note first = walker_cache_first [OF triple_of_fst [OF example_walk_ok]]
  have p: "(JStr ''b2'', ?es) \<in> set (snd (snd ?X))"
    by (simp add: example_walk_passes)
  have f: "BlockFetch (JStr ''testnet'') (JStr ''b2'') (Inr ?b) \<in> set ?es" by simp
  from first p f
  have pop: "entries (fst (snd ?X)) (JStr ''memory'', ''block'', JStr ''b2'')
      = Some (block_object ?b, clock example_world + blockExpirationMs)"
    and later: "\<forall>w2 current2 network2 r2 w3 ps2.
       entries w2 (JStr ''memory'', ''block'', JStr ''b2'')
         = entries (fst (snd ?X)) (JStr ''memory'', ''block'', JStr ''b2'')
       \<and> clock w2 < clock example_world + blockExpirationMs
       \<and> get_past_blocks ttl_env (JStr ''memory'') current2 network2 w2 = (r2, w3, ps2)
       \<longrightarrow> (\<forall>p\<in>set ps2. \<forall>e\<in>set (snd p). \<not> (is_fetch e \<and> hash_of e = JStr ''b2''))"
    by blast+
  have c: "clock ?w2 < clock example_world + blockExpirationMs"
    by (simp add: example_world_def blockExpirationMs_def)
  have "\<forall>p\<in>set (snd (snd ?Y)). \<forall>e\<in>set (snd p). \<not> (is_fetch e \<and> hash_of e = JStr ''b2'')"
    using later [rule_format, of ?w2 "JStr ''b3''" "JStr ''testnet''" "fst ?Y" "fst (snd ?Y)"
        "snd (snd ?Y)"] c
    by simp
  then have second: "filter (\<lambda>e. is_fetch e \<and> hash_of e = JStr ''b2'') (journal (snd (snd ?Y))) = []"
    by (rule no_fetch_filter)
  let ?Z = "get_past_blocks ttl_env (JStr ''memory'') (JStr ''b3'') (JStr ''testnet'') cached_world"
  have l: "live cached_world (JStr ''memory'', ''block'', JStr ''b2'')
      = Some (JObj [(''previous_block_hash'', JStr ''b1''),
                    (''transaction_ids'', JArr [JStr ''t2''])])"
    by (simp add: live_def cached_world_def example_world_def)
  from walker_cache_first [OF triple_of_fst [OF refl], of "JStr ''memory''" "JStr ''b3''"
      "JStr ''testnet''" cached_world] l
  have "\<forall>p\<in>set (snd (snd ?Z)). \<forall>e\<in>set (snd p). \<not> (is_fetch e \<and> hash_of e = JStr ''b2'')"
    by blast
  then have third: "filter (\<lambda>e. is_fetch e \<and> hash_of e = JStr ''b2'') (journal (snd (snd ?Z))) = []"
    by (rule no_fetch_filter)
  from pop second third show ?thesis
    by (simp add: block_object_def example_world_def blockExpirationMs_def)
qed

text \<open>
  Claim C9 says that every block of the result has exactly the documented fields,
  \<^verbatim>\<open>previous_block_hash\<close> and \<^verbatim>\<open>transaction_ids\<close>, whether it came from the cache or
  from the Block Source. Over a cache that holds \<^verbatim>\<open>b2\<close>, the walk from \<^verbatim>\<open>b2\<close> hands over
  two blocks: the one rebuilt from the cache has a third field, \<^verbatim>\<open>is_cached\<close>, the
  fetched one has the two.
\<close>

theorem cached_block_keeps_marker:
  "fst (get_past_blocks ttl_env (JStr ''memory'') (JStr ''b2'') (JStr ''testnet'') cached_world)
     = Inr (JObj [(''blocks'', JArr
         [JObj [(''is_cached'', JBool True), (''previous_block_hash'', JStr ''b1''),
                (''transaction_ids'', JArr [JStr ''t2''])],
          JObj [(''previous_block_hash'', JUndefined),
                (''transaction_ids'', JArr [JStr ''t1''])]])])
   \<and> field_names (JObj [(''is_cached'', JBool True), (''previous_block_hash'', JStr ''b1''),
                (''transaction_ids'', JArr [JStr ''t2''])])
     = [''is_cached'', ''previous_block_hash'', ''transaction_ids'']"
  by (simp add: walk_eval)

end
